theory Spec2Isabelle
  imports Main "HOL-Library.Word"
begin

unbundle bit_operations_syntax

section \<open>The simulated RAM of ptsim\<close>

text \<open>
  The program keeps one global array \<^verbatim>\<open>unsigned char mem[MEM_SIZE]\<close>. It is modelled as a
  store from C \<^verbatim>\<open>int\<close> addresses to bytes; the array has \<open>MEM_SIZE\<close> cells, and an access
  whose index is outside \<open>[0, MEM_SIZE)\<close> is undefined behaviour in C, which the model
  returns as the error value \<open>Out_of_bounds\<close>. C \<^verbatim>\<open>int\<close> values are modelled as
  mathematical integers: every arithmetic expression of the program on values that keep
  the accesses inside the array stays far below \<open>2^31\<close>.
\<close>

type_synonym byte = "8 word"
type_synonym mem = "int \<Rightarrow> byte"

definition MEM_SIZE :: int where "MEM_SIZE = 16384"
definition PAGE_SIZE :: int where "PAGE_SIZE = 256"
definition PAGE_COUNT :: int where "PAGE_COUNT = 64"
definition PAGE_SHIFT :: nat where "PAGE_SHIFT = 8"
definition PTP_OFFSET :: int where "PTP_OFFSET = 64"

datatype ub = Out_of_bounds int | Bad_array_size int

text \<open>\<open>mem[a]\<close> as an rvalue and \<open>mem[a] = v\<close>, with the array bound made explicit.\<close>

definition rd :: "mem \<Rightarrow> int \<Rightarrow> ub + byte" where
  "rd m a = (if 0 \<le> a \<and> a < MEM_SIZE then Inr (m a) else Inl (Out_of_bounds a))"

definition wr :: "mem \<Rightarrow> int \<Rightarrow> byte \<Rightarrow> ub + mem" where
  "wr m a v = (if 0 \<le> a \<and> a < MEM_SIZE then Inr (m(a := v)) else Inl (Out_of_bounds a))"

text \<open>\<^verbatim>\<open>get_address\<close>: \<^verbatim>\<open>(page << PAGE_SHIFT) | offset\<close>.\<close>

definition get_address :: "int \<Rightarrow> int \<Rightarrow> int" where
  "get_address page offset = push_bit PAGE_SHIFT page OR offset"

text \<open>\<^verbatim>\<open>memset(mem, 0, MEM_SIZE)\<close> leaves the all-zero store.\<close>

definition zero_mem :: mem where
  "zero_mem = (\<lambda>a. 0)"

text \<open>\<^verbatim>\<open>initialize_mem\<close>: clear the RAM, then mark the zero page as allocated.\<close>

definition initialize_mem :: mem where
  "initialize_mem = (let zpfree_addr = get_address 0 0 in zero_mem(zpfree_addr := 1))"

text \<open>\<^verbatim>\<open>get_page_table\<close>: the page table page of a process, read from the pointer table
  that starts \<open>PTP_OFFSET\<close> bytes into page 0.\<close>

definition get_page_table :: "int \<Rightarrow> mem \<Rightarrow> ub + byte" where
  "get_page_table proc_num m = (let ptp_addr = get_address 0 (PTP_OFFSET + proc_num) in rd m ptp_addr)"

section \<open>Output of the program\<close>

text \<open>
  Each \<^verbatim>\<open>printf\<close> of the core operations is one \<open>report\<close>. The two printers
  \<^verbatim>\<open>print_page_free_map\<close> and \<^verbatim>\<open>print_page_table\<close> are kept as the data they print:
  one flag per page (\<^verbatim>\<open>#\<close> is \<open>True\<close>, \<^verbatim>\<open>.\<close> is \<open>False\<close>) and the list of
  (virtual page, physical page) lines.
\<close>

datatype report =
    OOM_page_table int
  | OOM_data_page int
  | Invalid_virtual_address
  | Store_line int int int byte
  | Load_line int int int byte
  | Page_free_map "bool list"
  | Page_table int "(int \<times> byte) list"

section \<open>Creating a process\<close>

text \<open>
  The scan \<^verbatim>\<open>for (int i = 0; i < PAGE_COUNT; i++)\<close> that \<^verbatim>\<open>new_process\<close> runs once for the
  page table page and once for every data page: the first index whose free-map byte is 0
  is marked 1 and returned (\<^verbatim>\<open>break\<close>); the sentinel \<open>-1\<close> of the source is \<open>None\<close>.
  The index stays in \<open>[0, PAGE_COUNT)\<close>, inside the array.
\<close>

function alloc_scan :: "mem \<Rightarrow> int \<Rightarrow> int option \<times> mem" where
  "alloc_scan m i =
     (if i < PAGE_COUNT then
        (let addr = get_address 0 i in
         if m addr = 0 then (Some i, m(addr := 1))
         else alloc_scan m (i + 1))
      else (None, m))"
  by pat_completeness auto
termination
  by (relation "measure (\<lambda>(m, i). nat (PAGE_COUNT - i))") auto

declare alloc_scan.simps [simp del]

text \<open>
  The loop over \<open>j\<close> that fills the local array \<^verbatim>\<open>data_pages\<close> (initialised to \<open>-1\<close> by
  \<^verbatim>\<open>memset\<close>). The flag is \<open>False\<close> when a scan found no free page, where the source
  prints the data-page OOM line and returns.
\<close>

function data_loop :: "mem \<Rightarrow> int list \<Rightarrow> int \<Rightarrow> int \<Rightarrow> bool \<times> int list \<times> mem" where
  "data_loop m data_pages j page_count =
     (if j < page_count then
        (case alloc_scan m 0 of
           (None, m') \<Rightarrow> (False, data_pages, m')
         | (Some allocated, m') \<Rightarrow>
             data_loop m' (data_pages[nat j := allocated]) (j + 1) page_count)
      else (True, data_pages, m))"
  by pat_completeness auto
termination
  by (relation "measure (\<lambda>(m, ds, j, n). nat (n - j))") auto

declare data_loop.simps [simp del]

text \<open>The last loop of \<^verbatim>\<open>new_process\<close>: write the page table entries.\<close>

function set_entries :: "mem \<Rightarrow> int \<Rightarrow> int list \<Rightarrow> int \<Rightarrow> int \<Rightarrow> ub + mem" where
  "set_entries m pt_addr data_pages i page_count =
     (if i < page_count then
        (if data_pages ! nat i \<noteq> - 1 then
           (case wr m (pt_addr + i) (word_of_int (data_pages ! nat i)) of
              Inl e \<Rightarrow> Inl e
            | Inr m' \<Rightarrow> set_entries m' pt_addr data_pages (i + 1) page_count)
         else set_entries m pt_addr data_pages (i + 1) page_count)
      else Inr m)"
  by pat_completeness auto
termination
  by (relation "measure (\<lambda>(m, a, ds, i, n). nat (n - i))") auto

declare set_entries.simps [simp del]

text \<open>
  \<^verbatim>\<open>new_process\<close>. The variable-length array \<^verbatim>\<open>int data_pages[page_count]\<close> is declared
  after the page table page was taken, so the page-table OOM return comes before it; a
  negative length is undefined behaviour (\<open>Bad_array_size\<close>). A length of 0 is taken as
  the empty array that GNU C makes of it: \<^verbatim>\<open>memset\<close> and both loops then do nothing. The
  array lives on the C stack, whose size the model does not bound. The byte stored for
  \<^verbatim>\<open>pt_page\<close> and for each data page is the \<^verbatim>\<open>int\<close> converted to \<^verbatim>\<open>unsigned char\<close>.
\<close>

definition new_process :: "int \<Rightarrow> int \<Rightarrow> mem \<Rightarrow> ub + (report list \<times> mem)" where
  "new_process proc_num page_count m =
     (case alloc_scan m 0 of
        (None, m1) \<Rightarrow> Inr ([OOM_page_table proc_num], m1)
      | (Some pt_page, m1) \<Rightarrow>
          if page_count < 0 then Inl (Bad_array_size page_count)
          else
            (case data_loop m1 (replicate (nat page_count) (- 1)) 0 page_count of
               (False, data_pages, m2) \<Rightarrow> Inr ([OOM_data_page proc_num], m2)
             | (True, data_pages, m2) \<Rightarrow>
                 (let ptp_addr = get_address 0 (PTP_OFFSET + proc_num) in
                  case wr m2 ptp_addr (word_of_int pt_page) of
                    Inl e \<Rightarrow> Inl e
                  | Inr m3 \<Rightarrow>
                      (let pt_addr = get_address pt_page 0 in
                       case set_entries m3 pt_addr data_pages 0 page_count of
                         Inl e \<Rightarrow> Inl e
                       | Inr m4 \<Rightarrow> Inr ([], m4)))))"

section \<open>Killing a process\<close>

text \<open>The loop of \<^verbatim>\<open>kill_process\<close> that frees the data pages named by the page table.\<close>

function kill_loop :: "mem \<Rightarrow> int \<Rightarrow> int \<Rightarrow> ub + mem" where
  "kill_loop m pt_addr i =
     (if i < PAGE_COUNT then
        (case rd m (pt_addr + i) of
           Inl e \<Rightarrow> Inl e
         | Inr data_page \<Rightarrow>
             if data_page \<noteq> 0 then
               (case wr m (get_address 0 (uint data_page)) 0 of
                  Inl e \<Rightarrow> Inl e
                | Inr m' \<Rightarrow> kill_loop m' pt_addr (i + 1))
             else kill_loop m pt_addr (i + 1))
      else Inr m)"
  by pat_completeness auto
termination
  by (relation "measure (\<lambda>(m, a, i). nat (PAGE_COUNT - i))") auto

declare kill_loop.simps [simp del]

text \<open>\<^verbatim>\<open>kill_process\<close> prints nothing on any path.\<close>

definition kill_process :: "int \<Rightarrow> mem \<Rightarrow> ub + (report list \<times> mem)" where
  "kill_process proc_num m =
     (case get_page_table proc_num m of
        Inl e \<Rightarrow> Inl e
      | Inr pt \<Rightarrow>
          (let pt_page = uint pt; pt_addr = get_address pt_page 0 in
           case kill_loop m pt_addr 0 of
             Inl e \<Rightarrow> Inl e
           | Inr m1 \<Rightarrow>
               (case wr m1 (get_address 0 pt_page) 0 of
                  Inl e \<Rightarrow> Inl e
                | Inr m2 \<Rightarrow>
                    (case wr m2 (get_address 0 (PTP_OFFSET + proc_num)) 0 of
                       Inl e \<Rightarrow> Inl e
                     | Inr m3 \<Rightarrow> Inr ([], m3)))))"

section \<open>Byte access through the page table\<close>

text \<open>\<^verbatim>\<open>vaddr >> PAGE_SHIFT\<close> is an arithmetic shift and \<^verbatim>\<open>vaddr & 255\<close> a two's complement
  mask, as \<open>drop_bit\<close> and \<open>AND\<close> are on \<open>int\<close>.\<close>

definition store_byte :: "int \<Rightarrow> int \<Rightarrow> byte \<Rightarrow> mem \<Rightarrow> ub + (report list \<times> mem)" where
  "store_byte proc_num vaddr val m =
     (case get_page_table proc_num m of
        Inl e \<Rightarrow> Inl e
      | Inr pt_page \<Rightarrow>
          (let virtual_page = drop_bit PAGE_SHIFT vaddr;
               offset = vaddr AND 255;
               pt_addr = get_address (uint pt_page) virtual_page in
           case rd m pt_addr of
             Inl e \<Rightarrow> Inl e
           | Inr phys_page \<Rightarrow>
               if phys_page = 0 then Inr ([Invalid_virtual_address], m)
               else
                 (let phys_addr = get_address (uint phys_page) offset in
                  case wr m phys_addr val of
                    Inl e \<Rightarrow> Inl e
                  | Inr m' \<Rightarrow> Inr ([Store_line proc_num vaddr phys_addr val], m'))))"

definition load_byte :: "int \<Rightarrow> int \<Rightarrow> mem \<Rightarrow> ub + report list" where
  "load_byte proc_num vaddr m =
     (case get_page_table proc_num m of
        Inl e \<Rightarrow> Inl e
      | Inr pt_page \<Rightarrow>
          (let virtual_page = drop_bit PAGE_SHIFT vaddr;
               offset = vaddr AND 255;
               pt_addr = get_address (uint pt_page) virtual_page in
           case rd m pt_addr of
             Inl e \<Rightarrow> Inl e
           | Inr phys_page \<Rightarrow>
               if phys_page = 0 then Inr [Invalid_virtual_address]
               else
                 (let phys_addr = get_address (uint phys_page) offset in
                  case rd m phys_addr of
                    Inl e \<Rightarrow> Inl e
                  | Inr val \<Rightarrow> Inr [Load_line proc_num vaddr phys_addr val])))"

section \<open>The printers and the command loop\<close>

text \<open>\<^verbatim>\<open>print_page_free_map\<close> tests \<^verbatim>\<open>mem[get_address(0, i)] == 0\<close> for \<open>i\<close> from 0 to 63;
  \<open>free_map_snapshot\<close> is the list of the 64 used flags it prints.\<close>

definition free_map_snapshot :: "mem \<Rightarrow> bool list" where
  "free_map_snapshot m = map (\<lambda>i. m (get_address 0 i) \<noteq> 0) [0..63]"

text \<open>The loop of \<^verbatim>\<open>print_page_table\<close>: one line for every nonzero entry.\<close>

function page_table_lines :: "mem \<Rightarrow> int \<Rightarrow> int \<Rightarrow> ub + (int \<times> byte) list" where
  "page_table_lines m page_table i =
     (if i < PAGE_COUNT then
        (case rd m (get_address page_table i) of
           Inl e \<Rightarrow> Inl e
         | Inr page \<Rightarrow>
             (case page_table_lines m page_table (i + 1) of
                Inl e \<Rightarrow> Inl e
              | Inr ls \<Rightarrow> Inr (if page \<noteq> 0 then (i, page) # ls else ls)))
      else Inr [])"
  by pat_completeness auto
termination
  by (relation "measure (\<lambda>(m, p, i). nat (PAGE_COUNT - i))") auto

declare page_table_lines.simps [simp del]

definition print_page_table :: "int \<Rightarrow> mem \<Rightarrow> ub + report list" where
  "print_page_table proc_num m =
     (case get_page_table proc_num m of
        Inl e \<Rightarrow> Inl e
      | Inr page_table \<Rightarrow>
          (case page_table_lines m (uint page_table) 0 of
             Inl e \<Rightarrow> Inl e
           | Inr ls \<Rightarrow> Inr [Page_table proc_num ls]))"

text \<open>The commands of \<^verbatim>\<open>main\<close>, after \<^verbatim>\<open>strcmp\<close> has recognised them and \<^verbatim>\<open>atoi\<close> has
  read their arguments; the value of \<^verbatim>\<open>sb\<close> is cast to \<^verbatim>\<open>unsigned char\<close> there.\<close>

datatype cmd =
    Pfm
  | Ppt int
  | Np int int
  | Kp int
  | Sb int int byte
  | Lb int int

fun exec :: "cmd \<Rightarrow> mem \<Rightarrow> ub + (report list \<times> mem)" where
  "exec Pfm m = Inr ([Page_free_map (free_map_snapshot m)], m)"
| "exec (Ppt proc_num) m =
     (case print_page_table proc_num m of Inl e \<Rightarrow> Inl e | Inr out \<Rightarrow> Inr (out, m))"
| "exec (Np proc_num page_count) m = new_process proc_num page_count m"
| "exec (Kp proc_num) m = kill_process proc_num m"
| "exec (Sb proc_num vaddr val) m = store_byte proc_num vaddr val m"
| "exec (Lb proc_num vaddr) m =
     (case load_byte proc_num vaddr m of Inl e \<Rightarrow> Inl e | Inr out \<Rightarrow> Inr (out, m))"

fun run :: "cmd list \<Rightarrow> mem \<Rightarrow> ub + (report list \<times> mem)" where
  "run [] m = Inr ([], m)"
| "run (c # cs) m =
     (case exec c m of
        Inl e \<Rightarrow> Inl e
      | Inr (out, m') \<Rightarrow>
          (case run cs m' of
             Inl e \<Rightarrow> Inl e
           | Inr (outs, m'') \<Rightarrow> Inr (out @ outs, m'')))"

text \<open>\<^verbatim>\<open>main\<close> with at least one command: initialise the RAM, then run the commands in
  order; the result is what they print. Undefined behaviour ends the run.\<close>

definition ptsim :: "cmd list \<Rightarrow> ub + report list" where
  "ptsim cs = (case run cs initialize_mem of Inl e \<Rightarrow> Inl e | Inr (outs, m) \<Rightarrow> Inr outs)"

section \<open>The allocator seen from outside\<close>

text \<open>
  Two notions used to state what the loops above compute. \<open>free_pages\<close> lists, in
  ascending order, the physical pages whose free-map byte is 0; its length is the number
  of free pages. \<open>mark_used\<close> sets the free-map byte of each page of a list to 1.
\<close>

definition free_pages :: "mem \<Rightarrow> int list" where
  "free_pages m = filter (\<lambda>i. m (get_address 0 i) = 0) [0..PAGE_COUNT - 1]"

definition mark_used :: "int list \<Rightarrow> mem \<Rightarrow> mem" where
  "mark_used ps m = fold (\<lambda>p m'. m'(get_address 0 p := 1)) ps m"

section \<open>The sweep of kill_process, step by step\<close>

text \<open>
  One pass of the loop body of \<^verbatim>\<open>kill_process\<close> at index \<open>i\<close> of the table at \<open>pt_addr\<close>:
  when the entry, as the store holds it at that moment, is a nonzero byte \<open>b\<close>, the
  free-map byte of page \<open>b\<close> is cleared. \<open>sweep_page_zero\<close> runs the pass over the entries
  0 to 63 of page 0 in ascending order: this is the sweep with page 0 taken as the page
  table.
\<close>

definition sweep_step :: "int \<Rightarrow> int \<Rightarrow> mem \<Rightarrow> mem" where
  "sweep_step pt_addr i m =
     (if m (pt_addr + i) \<noteq> 0 then m(get_address 0 (uint (m (pt_addr + i))) := 0) else m)"

definition sweep_page_zero :: "mem \<Rightarrow> mem" where
  "sweep_page_zero m = fold (sweep_step (get_address 0 0)) [0..PAGE_COUNT - 1] m"

section \<open>Command sequences that kill live processes only\<close>

text \<open>
  \<open>live_target\<close> holds of a \<^verbatim>\<open>kp\<close> command when its process number is not negative and
  the pointer table has a nonzero entry for it; every other command passes.
  \<open>kills_live_only\<close> checks this for each command of a sequence, in the store the command
  is run in.
\<close>

fun live_target :: "cmd \<Rightarrow> mem \<Rightarrow> bool" where
  "live_target (Kp proc_num) m =
     (0 \<le> proc_num \<and> (case get_page_table proc_num m of Inl e \<Rightarrow> False | Inr pt \<Rightarrow> pt \<noteq> 0))"
| "live_target c m = True"

fun kills_live_only :: "cmd list \<Rightarrow> mem \<Rightarrow> bool" where
  "kills_live_only [] m = True"
| "kills_live_only (c # cs) m =
     (live_target c m \<and>
      (case exec c m of Inl e \<Rightarrow> True | Inr (out, m') \<Rightarrow> kills_live_only cs m'))"

section \<open>Address arithmetic\<close>

lemma get_address_zero_page [simp]: "get_address 0 x = x"
  by (simp add: get_address_def)

lemma get_address_add:
  assumes "0 \<le> off" "off < 256"
  shows "get_address p off = p * 256 + off"
proof -
  have "take_bit 8 off = off"
    using assms by (simp add: take_bit_int_eq_self)
  then have "push_bit 8 p OR off = concat_bit 8 off p"
    by (simp add: concat_bit_def or.commute)
  also have "\<dots> = take_bit 8 off + push_bit 8 p"
    by (rule concat_bit_eq)
  finally show ?thesis
    using \<open>take_bit 8 off = off\<close> by (simp add: get_address_def PAGE_SHIFT_def push_bit_eq_mult)
qed

lemma get_address_zero_offset: "get_address p 0 = p * 256"
  by (simp add: get_address_add)

lemma and_255_bounds: "0 \<le> (v::int) AND 255" "(v::int) AND 255 < 256"
proof -
  have "v AND 255 = take_bit 8 v"
    by (simp add: take_bit_eq_mask mask_eq_exp_minus_1)
  then show "0 \<le> v AND 255" "v AND 255 < 256"
    using take_bit_int_less_exp[of 8 v] by simp_all
qed

lemma uint_byte_bounds: "0 \<le> uint (b::byte)" "uint (b::byte) < 256"
  using uint_bounded[of b] by simp_all

lemma uint_byte_pos: "(b::byte) \<noteq> 0 \<Longrightarrow> 0 < uint b"
  using uint_byte_bounds(1)[of b] by (simp add: order_less_le unsigned_eq_0_iff del: unsigned_greater_eq)

lemma alloc_scan_filter:
  "alloc_scan m i = (case filter (\<lambda>k. m (get_address 0 k) = 0) [i..PAGE_COUNT - 1] of
      [] \<Rightarrow> (None, m) | k # _ \<Rightarrow> (Some k, m(get_address 0 k := 1)))"
proof (induction m i rule: alloc_scan.induct)
  case (1 m i)
  show ?case
  proof (cases "i < PAGE_COUNT")
    case True
    then have u: "[i..PAGE_COUNT - 1] = i # [i + 1..PAGE_COUNT - 1]"
      by (simp add: upto_rec1)
    show ?thesis
    proof (cases "m (get_address 0 i) = 0")
      case True
      with \<open>i < PAGE_COUNT\<close> u show ?thesis
        by (subst alloc_scan.simps) simp
    next
      case False
      with \<open>i < PAGE_COUNT\<close> u "1.IH"[OF \<open>i < PAGE_COUNT\<close> refl] show ?thesis
        by (subst alloc_scan.simps) simp
    qed
  next
    case False
    then show ?thesis
      by (subst alloc_scan.simps) simp
  qed
qed

lemma alloc_scan_free_pages:
  "alloc_scan m 0 = (case free_pages m of
      [] \<Rightarrow> (None, m) | p # _ \<Rightarrow> (Some p, m(get_address 0 p := 1)))"
  by (simp add: alloc_scan_filter free_pages_def)

lemma free_pages_distinct: "distinct (free_pages m)"
  by (simp add: free_pages_def)

lemma free_pages_after:
  assumes "free_pages m = p # ps"
  shows "free_pages (m(get_address 0 p := 1)) = ps"
proof -
  have "free_pages (m(get_address 0 p := 1)) = filter (\<lambda>i. i \<noteq> p) (free_pages m)"
    by (auto simp: free_pages_def intro: filter_cong)
  also have "\<dots> = ps"
    using free_pages_distinct[of m] assms by (auto simp: filter_id_conv)
  finally show ?thesis .
qed

lemma mark_used_Cons: "mark_used (p # ps) m = mark_used ps (m(get_address 0 p := 1))"
  by (simp add: mark_used_def)

lemma mark_used_Nil [simp]: "mark_used [] m = m"
  by (simp add: mark_used_def)

lemma mark_used_apply:
  "mark_used ps m a = (if a \<in> set ps then 1 else m a)"
  by (induction ps arbitrary: m) (auto simp: mark_used_Cons)

lemma data_loop_mem:
  "snd (snd (data_loop m ds j n)) = mark_used (take (nat (n - j)) (free_pages m)) m
   \<and> fst (data_loop m ds j n) = (nat (n - j) \<le> length (free_pages m))"
proof (induction m ds j n rule: data_loop.induct)
  case (1 m ds j n)
  show ?case
  proof (cases "j < n")
    case False
    then show ?thesis by (subst (1 2) data_loop.simps) simp
  next
    case True
    define k where "k = nat (n - (j + 1))"
    from True have k: "nat (n - j) = Suc k" "nat (n - (j + 1)) = k"
      by (simp_all add: k_def)
    show ?thesis
    proof (cases "free_pages m")
      case Nil
      with True k show ?thesis
        by (subst (1 2) data_loop.simps) (simp add: alloc_scan_free_pages)
    next
      case (Cons p ps)
      define m' where "m' = m(get_address 0 p := 1)"
      from Cons have a: "alloc_scan m 0 = (Some p, m')"
        by (simp add: alloc_scan_free_pages m'_def)
      have fp: "free_pages m' = ps"
        unfolding m'_def by (rule free_pages_after[OF Cons])
      from "1.IH"[OF True a[symmetric] refl]
      have ih: "snd (snd (data_loop m' (ds[nat j := p]) (j + 1) n)) = mark_used (take k ps) m'"
        "fst (data_loop m' (ds[nat j := p]) (j + 1) n) = (k \<le> length ps)"
        unfolding fp k by simp_all
      have "data_loop m ds j n = data_loop m' (ds[nat j := p]) (j + 1) n"
        using True a by (subst data_loop.simps) simp
      then show ?thesis
        using ih k Cons by (simp add: mark_used_Cons m'_def)
    qed
  qed
qed

lemma data_loop_pages:
  assumes "0 \<le> j" "j \<le> n" "length ds = nat n" "nat (n - j) \<le> length (free_pages m)"
  shows "fst (snd (data_loop m ds j n)) = take (nat j) ds @ take (nat (n - j)) (free_pages m)"
  using assms
proof (induction m ds j n rule: data_loop.induct)
  case (1 m ds j n)
  show ?case
  proof (cases "j < n")
    case False
    with "1.prems" show ?thesis by (subst data_loop.simps) simp
  next
    case True
    define k where "k = nat (n - (j + 1))"
    from True have k: "nat (n - j) = Suc k" "nat (n - (j + 1)) = k"
      by (simp_all add: k_def)
    with "1.prems" obtain p ps where Cons: "free_pages m = p # ps"
      by (cases "free_pages m") auto
    define m' where "m' = m(get_address 0 p := 1)"
    from Cons have a: "alloc_scan m 0 = (Some p, m')"
      by (simp add: alloc_scan_free_pages m'_def)
    have fp: "free_pages m' = ps"
      unfolding m'_def by (rule free_pages_after[OF Cons])
    have j1: "nat (j + 1) = Suc (nat j)"
      using "1.prems" by (simp add: nat_add_distrib)
    have "k \<le> length ps"
      using "1.prems" k Cons by simp
    then have "fst (snd (data_loop m' (ds[nat j := p]) (j + 1) n)) =
        take (nat (j + 1)) (ds[nat j := p]) @ take k ps"
      using "1.IH"[OF True a[symmetric] refl] "1.prems" True
      unfolding fp k by simp
    moreover have "take (nat (j + 1)) (ds[nat j := p]) = take (nat j) ds @ [p]"
    proof -
      have "nat j < length ds" using "1.prems" True by simp
      then show ?thesis
        unfolding j1 by (simp add: take_Suc_conv_app_nth)
    qed
    moreover have "data_loop m ds j n = data_loop m' (ds[nat j := p]) (j + 1) n"
      using True a by (subst data_loop.simps) simp
    ultimately show ?thesis
      using k Cons by simp
  qed
qed

lemma free_pages_mem: "a \<in> set (free_pages m) \<longleftrightarrow> 0 \<le> a \<and> a < PAGE_COUNT \<and> m a = 0"
  by (auto simp: free_pages_def)

lemma alloc_scan_Some:
  "alloc_scan m k = (Some i, m') \<Longrightarrow>
     k \<le> i \<and> i < PAGE_COUNT \<and> m (get_address 0 i) = 0 \<and>
     (\<forall>j. k \<le> j \<and> j < i \<longrightarrow> m (get_address 0 j) \<noteq> 0) \<and> m' = m(get_address 0 i := 1)"
proof (induction m k rule: alloc_scan.induct)
  case (1 m k)
  show ?case
  proof (cases "k < PAGE_COUNT \<and> m (get_address 0 k) \<noteq> 0")
    case True
    with "1.prems" have "alloc_scan m (k + 1) = (Some i, m')"
      by (subst (asm) alloc_scan.simps) simp
    with "1.IH"[OF _ refl] True
    have *: "k + 1 \<le> i" "i < PAGE_COUNT" "m (get_address 0 i) = 0"
      "\<forall>j. k + 1 \<le> j \<and> j < i \<longrightarrow> m (get_address 0 j) \<noteq> 0" "m' = m(get_address 0 i := 1)"
      by blast+
    have "m (get_address 0 j) \<noteq> 0" if "k \<le> j" "j < i" for j
    proof (cases "j = k")
      case True
      with \<open>k < PAGE_COUNT \<and> m (get_address 0 k) \<noteq> 0\<close> show ?thesis by simp
    next
      case False
      with that *(4) show ?thesis by simp
    qed
    with * show ?thesis by simp
  next
    case False
    with "1.prems" show ?thesis
      by (subst (asm) alloc_scan.simps) (auto split: if_splits)
  qed
qed

lemma alloc_scan_None:
  "alloc_scan m k = (None, m') \<Longrightarrow>
     m' = m \<and> (\<forall>j. k \<le> j \<and> j < PAGE_COUNT \<longrightarrow> m (get_address 0 j) \<noteq> 0)"
proof (induction m k rule: alloc_scan.induct)
  case (1 m k)
  show ?case
  proof (cases "k < PAGE_COUNT")
    case True
    with "1.prems" have nz: "m (get_address 0 k) \<noteq> 0" and r: "alloc_scan m (k + 1) = (None, m')"
      by (subst (asm) alloc_scan.simps, simp split: if_splits)+
    from "1.IH"[OF True refl _ r] nz
    have *: "m' = m" "\<forall>j. k + 1 \<le> j \<and> j < PAGE_COUNT \<longrightarrow> m (get_address 0 j) \<noteq> 0"
      by simp_all
    have "m (get_address 0 j) \<noteq> 0" if "k \<le> j" "j < PAGE_COUNT" for j
    proof (cases "j = k")
      case True
      with nz show ?thesis by simp
    next
      case False
      with that *(2) show ?thesis by simp
    qed
    with * show ?thesis by simp
  next
    case False
    with "1.prems" show ?thesis
      by (subst (asm) alloc_scan.simps) auto
  qed
qed


section \<open>First-fit allocation\<close>

lemma new_process_first_fit:
  "new_process proc n m =
     (case free_pages m of
        [] \<Rightarrow> Inr ([OOM_page_table proc], m)
      | pt # fs \<Rightarrow>
          if n < 0 then Inl (Bad_array_size n)
          else if length fs < nat n then Inr ([OOM_data_page proc], mark_used (pt # fs) m)
          else
            (case wr (mark_used (pt # take (nat n) fs) m) (get_address 0 (PTP_OFFSET + proc))
                    (word_of_int pt) of
               Inl e \<Rightarrow> Inl e
             | Inr m3 \<Rightarrow>
                 (case set_entries m3 (get_address pt 0) (take (nat n) fs) 0 n of
                    Inl e \<Rightarrow> Inl e
                  | Inr m4 \<Rightarrow> Inr ([], m4))))"
proof (cases "free_pages m")
  case Nil
  then show ?thesis
    by (simp add: new_process_def alloc_scan_free_pages)
next
  case (Cons pt fs)
  define m1 where "m1 = m(get_address 0 pt := 1)"
  from Cons have a: "alloc_scan m 0 = (Some pt, m1)"
    by (simp add: alloc_scan_free_pages m1_def)
  have fp: "free_pages m1 = fs"
    unfolding m1_def by (rule free_pages_after[OF Cons])
  show ?thesis
  proof (cases "n < 0")
    case True
    with a Cons show ?thesis by (simp add: new_process_def)
  next
    case False
    obtain b ds m2 where d: "data_loop m1 (replicate (nat n) (- 1)) 0 n = (b, ds, m2)"
      by (cases "data_loop m1 (replicate (nat n) (- 1)) 0 n") auto
    from data_loop_mem[of m1 "replicate (nat n) (- 1)" 0 n] d fp
    have m2: "m2 = mark_used (take (nat n) fs) m1" and b: "b = (nat n \<le> length fs)"
      by simp_all
    show ?thesis
    proof (cases b)
      case False
      with b have "take (nat n) fs = fs" by simp
      with False b m2 a d Cons \<open>\<not> n < 0\<close> show ?thesis
        by (simp add: new_process_def mark_used_Cons m1_def)
    next
      case True
      with b have le: "nat n \<le> length fs" by simp
      from data_loop_pages[of 0 n "replicate (nat n) (- 1)" m1] le fp d \<open>\<not> n < 0\<close>
      have ds: "ds = take (nat n) fs" by simp
      from True le m2 ds a d Cons \<open>\<not> n < 0\<close> show ?thesis
        by (simp add: new_process_def mark_used_Cons m1_def split: sum.splits)
    qed
  qed
qed

section \<open>Reading and writing the store\<close>

lemma rd_eq_Inr: "rd m a = Inr x \<longleftrightarrow> 0 \<le> a \<and> a < MEM_SIZE \<and> m a = x"
  by (auto simp: rd_def)

lemma wr_eq_Inr: "wr m a v = Inr m' \<longleftrightarrow> 0 \<le> a \<and> a < MEM_SIZE \<and> m' = m(a := v)"
  by (auto simp: wr_def)

lemma phys_addr_bounds:
  assumes "(phys_page::byte) \<noteq> 0"
  shows "PAGE_SIZE \<le> get_address (uint phys_page) (vaddr AND 255)"
    and "uint phys_page < PAGE_COUNT \<Longrightarrow> get_address (uint phys_page) (vaddr AND 255) < MEM_SIZE"
proof -
  define off where "off = vaddr AND 255"
  have o: "0 \<le> off" "off < 256"
    unfolding off_def by (rule and_255_bounds)+
  have a: "get_address (uint phys_page) off = uint phys_page * 256 + off"
    using o by (rule get_address_add)
  from uint_byte_pos[OF assms] o
  show "PAGE_SIZE \<le> get_address (uint phys_page) (vaddr AND 255)"
    unfolding off_def[symmetric] a PAGE_SIZE_def by linarith
  from o show "get_address (uint phys_page) (vaddr AND 255) < MEM_SIZE" if "uint phys_page < PAGE_COUNT"
    using that unfolding off_def[symmetric] a PAGE_COUNT_def MEM_SIZE_def by linarith
qed

text \<open>The scenario of one process with three pages, created in the fresh store: page 1 is
  its page table and pages 2, 3 and 4 are its data pages.\<close>

lemma new_process_2_3:
  "new_process 2 3 initialize_mem =
     Inr ([], zero_mem(0 := 1, 1 := 1, 2 := 1, 3 := 1, 4 := 1, 66 := 1, 256 := 2, 257 := 3, 258 := 4))"
proof -
  have fp: "free_pages initialize_mem = [1..63]"
    by (simp add: free_pages_def initialize_mem_def zero_mem_def PAGE_COUNT_def upto_rec1[of 0])
  have u: "[1..63] = 1 # 2 # 3 # 4 # [5..63]"
    by (simp add: upto_rec1)
  show ?thesis
    unfolding new_process_first_fit fp u
    by (simp add: mark_used_def wr_def MEM_SIZE_def PTP_OFFSET_def set_entries.simps
        get_address_zero_offset initialize_mem_def)
qed

section \<open>The sweep of kill_process\<close>

lemma kill_loop_writes:
  "kill_loop m a i = Inr m' \<Longrightarrow> m' x = m x \<or> (0 < x \<and> x < PAGE_SIZE \<and> m' x = 0)"
proof (induction m a i rule: kill_loop.induct)
  case (1 m a i)
  show ?case
  proof (cases "i < PAGE_COUNT")
    case False
    with "1.prems" show ?thesis
      by (subst (asm) kill_loop.simps) simp
  next
    case True
    from "1.prems" True obtain d where d: "rd m (a + i) = Inr d"
      by (subst (asm) kill_loop.simps) (auto split: sum.splits)
    show ?thesis
    proof (cases "d = 0")
      case True
      with "1.prems" \<open>i < PAGE_COUNT\<close> d have "kill_loop m a (i + 1) = Inr m'"
        by (subst (asm) kill_loop.simps) simp
      from "1.IH"(2)[OF \<open>i < PAGE_COUNT\<close> d _ this] True show ?thesis
        by simp
    next
      case False
      define m1 where "m1 = m(uint d := 0)"
      from uint_byte_pos[OF False] uint_byte_bounds(2)[of d]
      have b: "0 < uint d" "uint d < PAGE_SIZE"
        by (simp_all add: PAGE_SIZE_def)
      then have w: "wr m (get_address 0 (uint d)) 0 = Inr m1"
        by (simp add: wr_def m1_def MEM_SIZE_def PAGE_SIZE_def)
      with "1.prems" \<open>i < PAGE_COUNT\<close> d False have "kill_loop m1 a (i + 1) = Inr m'"
        by (subst (asm) kill_loop.simps) simp
      from "1.IH"(1)[OF \<open>i < PAGE_COUNT\<close> d False w this]
      have "m' x = m1 x \<or> (0 < x \<and> x < PAGE_SIZE \<and> m' x = 0)" .
      with b show ?thesis
        by (auto simp: m1_def split: if_splits)
    qed
  qed
qed

lemma kill_loop_total:
  assumes "0 \<le> a" "a + PAGE_COUNT \<le> MEM_SIZE" "0 \<le> i"
  shows "\<exists>m'. kill_loop m a i = Inr m'"
  using assms
proof (induction m a i rule: kill_loop.induct)
  case (1 m a i)
  show ?case
  proof (cases "i < PAGE_COUNT")
    case False
    then show ?thesis
      by (subst kill_loop.simps) simp
  next
    case True
    with "1.prems" have d: "rd m (a + i) = Inr (m (a + i))"
      by (simp add: rd_def)
    show ?thesis
    proof (cases "m (a + i) = 0")
      case True
      from "1.IH"(2)[OF \<open>i < PAGE_COUNT\<close> d] True "1.prems"
      obtain m' where "kill_loop m a (i + 1) = Inr m'" by auto
      with True d \<open>i < PAGE_COUNT\<close> show ?thesis
        by (subst kill_loop.simps) simp
    next
      case False
      define m1 where "m1 = m(uint (m (a + i)) := 0)"
      from uint_byte_bounds[of "m (a + i)"]
      have w: "wr m (get_address 0 (uint (m (a + i)))) 0 = Inr m1"
        by (simp add: wr_def m1_def MEM_SIZE_def)
      from "1.IH"(1)[OF \<open>i < PAGE_COUNT\<close> d False w] "1.prems"
      obtain m' where "kill_loop m1 a (i + 1) = Inr m'" by auto
      with False d w \<open>i < PAGE_COUNT\<close> show ?thesis
        by (subst kill_loop.simps) simp
    qed
  qed
qed

lemma kill_loop_fold:
  assumes "0 \<le> a" "a + PAGE_COUNT \<le> MEM_SIZE" "0 \<le> i"
  shows "kill_loop m a i = Inr (fold (sweep_step a) [i..PAGE_COUNT - 1] m)"
  using assms
proof (induction m a i rule: kill_loop.induct)
  case (1 m a i)
  show ?case
  proof (cases "i < PAGE_COUNT")
    case False
    then show ?thesis
      by (subst kill_loop.simps) simp
  next
    case True
    then have u: "[i..PAGE_COUNT - 1] = i # [i + 1..PAGE_COUNT - 1]"
      by (simp add: upto_rec1)
    from True "1.prems" have d: "rd m (a + i) = Inr (m (a + i))"
      by (simp add: rd_def)
    show ?thesis
    proof (cases "m (a + i) = 0")
      case z: True
      from "1.IH"(2)[OF True d] z "1.prems"
      have "kill_loop m a (i + 1) = Inr (fold (sweep_step a) [i + 1..PAGE_COUNT - 1] m)"
        by simp
      with True d z show ?thesis
        unfolding u by (subst kill_loop.simps) (simp add: sweep_step_def)
    next
      case nz: False
      define m1 where "m1 = m(get_address 0 (uint (m (a + i))) := 0)"
      from uint_byte_bounds[of "m (a + i)"]
      have w: "wr m (get_address 0 (uint (m (a + i)))) 0 = Inr m1"
        by (simp add: wr_def m1_def MEM_SIZE_def)
      from "1.IH"(1)[OF True d nz w] "1.prems"
      have "kill_loop m1 a (i + 1) = Inr (fold (sweep_step a) [i + 1..PAGE_COUNT - 1] m1)"
        by simp
      moreover have "sweep_step a i m = m1"
        using nz by (simp add: sweep_step_def m1_def)
      ultimately show ?thesis
        using True d nz w unfolding u by (subst kill_loop.simps) simp
    qed
  qed
qed

lemma first_entry_freed:
  assumes "kill_loop m 0 0 = Inr m1" "m 0 \<noteq> 0"
  shows "m1 (uint (m 0)) = 0"
proof -
  define m0 where "m0 = m(uint (m 0) := 0)"
  from uint_byte_bounds[of "m 0"] have w: "wr m (get_address 0 (uint (m 0))) 0 = Inr m0"
    by (simp add: wr_def m0_def MEM_SIZE_def)
  have d: "rd m (0 + 0) = Inr (m 0)"
    by (simp add: rd_def MEM_SIZE_def)
  from assms d w have "kill_loop m0 0 (0 + 1) = Inr m1"
    by (subst (asm) kill_loop.simps) (simp add: PAGE_COUNT_def)
  from kill_loop_writes[OF this, of "uint (m 0)"] show ?thesis
    by (auto simp: m0_def)
qed

section \<open>The free-map byte of page 0\<close>

lemma set_entries_below:
  "set_entries m a ds i n = Inr m' \<Longrightarrow> 0 \<le> i \<Longrightarrow> x < a \<Longrightarrow> m' x = m x"
proof (induction m a ds i n rule: set_entries.induct)
  case (1 m a ds i n)
  show ?case
  proof (cases "i < n")
    case False
    with "1.prems" show ?thesis
      by (subst (asm) set_entries.simps) simp
  next
    case True
    show ?thesis
    proof (cases "ds ! nat i \<noteq> - 1")
      case False
      with "1.prems" True have "set_entries m a ds (i + 1) n = Inr m'"
        by (subst (asm) set_entries.simps) simp
      from "1.IH"(2)[OF True _ this] False "1.prems" show ?thesis by simp
    next
      case nz: True
      from "1.prems" True nz obtain m1 where
        w: "wr m (a + i) (word_of_int (ds ! nat i)) = Inr m1"
        and r: "set_entries m1 a ds (i + 1) n = Inr m'"
        by (subst (asm) set_entries.simps) (auto split: sum.splits)
      from "1.IH"(1)[OF True nz w r] "1.prems" have "m' x = m1 x" by simp
      moreover from w "1.prems" have "m1 x = m x"
        by (auto simp: wr_eq_Inr)
      ultimately show ?thesis by simp
    qed
  qed
qed

lemma page_number_byte:
  assumes "0 < pt" "pt < PAGE_COUNT"
  shows "(word_of_int pt :: byte) \<noteq> 0"
proof
  assume "(word_of_int pt :: byte) = 0"
  then have "256 dvd pt"
    by (simp add: word_of_int_eq_0_iff)
  with assms show False
    by (auto simp: PAGE_COUNT_def dest: zdvd_imp_le)
qed

lemma new_process_page_zero:
  assumes "m 0 \<noteq> 0" "new_process proc n m = Inr (out, m')"
  shows "m' 0 \<noteq> 0"
proof (cases "free_pages m")
  case Nil
  with assms show ?thesis by (simp add: new_process_first_fit)
next
  case (Cons pt fs)
  have pt: "0 < pt" "pt < PAGE_COUNT"
    using free_pages_mem[of pt m] Cons assms(1) by (cases "pt = 0"; auto)+
  have mk: "mark_used ps m 0 \<noteq> 0" for ps
    using assms(1) by (simp add: mark_used_apply)
  show ?thesis
  proof (cases "length fs < nat n")
    case True
    with assms Cons mk show ?thesis
      by (auto simp: new_process_first_fit split: if_splits)
  next
    case False
    with assms(2) Cons obtain m3 where
      w: "wr (mark_used (pt # take (nat n) fs) m) (get_address 0 (PTP_OFFSET + proc)) (word_of_int pt) = Inr m3"
      and s: "set_entries m3 (get_address pt 0) (take (nat n) fs) 0 n = Inr m'"
      by (auto simp: new_process_first_fit split: if_splits sum.splits)
    from w page_number_byte[OF pt] mk[of "pt # take (nat n) fs"] have "m3 0 \<noteq> 0"
      by (auto simp: wr_eq_Inr)
    moreover from set_entries_below[OF s, of 0] pt have "m' 0 = m3 0"
      by (simp add: get_address_zero_offset)
    ultimately show ?thesis by simp
  qed
qed

lemma kill_process_page_zero:
  assumes "0 \<le> proc" "get_page_table proc m = Inr pt" "pt \<noteq> 0"
    "kill_process proc m = Inr (out, m')"
  shows "m' 0 = m 0"
proof -
  from assms(2,4) obtain m1 where k: "kill_loop m (get_address (uint pt) 0) 0 = Inr m1"
    and m': "m' = m1(get_address 0 (uint pt) := 0, get_address 0 (PTP_OFFSET + proc) := 0)"
    by (auto simp: kill_process_def Let_def wr_eq_Inr split: sum.splits)
  from kill_loop_writes[OF k, of 0] have "m1 0 = m 0" by simp
  with m' uint_byte_pos[OF assms(3)] assms(1) show ?thesis
    by (simp add: PTP_OFFSET_def)
qed

lemma store_byte_page_zero:
  assumes "store_byte proc vaddr v m = Inr (out, m')" "x < PAGE_SIZE"
  shows "m' x = m x"
proof -
  from assms(1) obtain pt where g: "get_page_table proc m = Inr pt"
    by (cases "get_page_table proc m") (auto simp: store_byte_def)
  with assms(1) obtain pp where
    e: "rd m (get_address (uint pt) (drop_bit PAGE_SHIFT vaddr)) = Inr pp"
    by (cases "rd m (get_address (uint pt) (drop_bit PAGE_SHIFT vaddr))")
      (auto simp: store_byte_def Let_def)
  show ?thesis
  proof (cases "pp = 0")
    case True
    with assms(1) g e show ?thesis
      by (simp add: store_byte_def Let_def)
  next
    case False
    with assms(1) g e have "m' = m(get_address (uint pp) (vaddr AND 255) := v)"
      by (auto simp: store_byte_def Let_def wr_eq_Inr split: sum.splits)
    with phys_addr_bounds(1)[OF False, of vaddr] assms(2) show ?thesis
      by auto
  qed
qed

lemma exec_page_zero:
  assumes "m 0 \<noteq> 0" "live_target c m" "exec c m = Inr (out, m')"
  shows "m' 0 \<noteq> 0"
proof (cases c)
  case (Np proc n)
  with assms new_process_page_zero[of m proc n out m'] show ?thesis by simp
next
  case (Kp proc)
  with assms kill_process_page_zero[of proc m _ out m'] show ?thesis
    by (auto split: sum.splits)
next
  case (Sb proc vaddr v)
  with assms store_byte_page_zero[of proc vaddr v m out m' 0] show ?thesis
    by (simp add: PAGE_SIZE_def)
qed (use assms in \<open>auto split: sum.splits\<close>)

lemma run_page_zero:
  "m 0 \<noteq> 0 \<Longrightarrow> kills_live_only cs m \<Longrightarrow> run cs m = Inr (outs, m') \<Longrightarrow> m' 0 \<noteq> 0"
proof (induction cs arbitrary: m outs)
  case Nil
  then show ?case by simp
next
  case (Cons c cs)
  from Cons.prems(3) obtain out m1 outs1 where
    e: "exec c m = Inr (out, m1)" and r: "run cs m1 = Inr (outs1, m')"
    by (auto split: sum.splits)
  from Cons.prems(1,2) e have "m1 0 \<noteq> 0" "kills_live_only cs m1"
    by (auto dest: exec_page_zero)
  then show ?case using r by (rule Cons.IH)
qed

section \<open>Create, then kill, on a clear page table page\<close>

text \<open>
  What the two loops that touch a page table compute, when the table does not overlap
  page 0: \<^verbatim>\<open>new_process\<close> writes the data pages into the first \<open>page_count\<close> entries, and
  \<^verbatim>\<open>kill_process\<close> clears the free-map byte of every page named by a nonzero entry among
  all \<open>PAGE_COUNT\<close> entries.
\<close>

lemma set_entries_result:
  assumes "length ds = nat n" "\<forall>d\<in>set ds. d \<noteq> - 1" "0 \<le> a" "a + n \<le> MEM_SIZE" "0 \<le> i"
  shows "set_entries m a ds i n =
     Inr (\<lambda>x. if a + i \<le> x \<and> x < a + n then word_of_int (ds ! nat (x - a)) else m x)"
  using assms
proof (induction m a ds i n rule: set_entries.induct)
  case (1 m a ds i n)
  show ?case
  proof (cases "i < n")
    case False
    then show ?thesis
      by (subst set_entries.simps) (auto simp: fun_eq_iff)
  next
    case True
    with "1.prems" have nz: "ds ! nat i \<noteq> - 1"
      by simp
    define m1 where "m1 = m(a + i := word_of_int (ds ! nat i))"
    from True "1.prems" have w: "wr m (a + i) (word_of_int (ds ! nat i)) = Inr m1"
      by (simp add: wr_def m1_def)
    from "1.IH"(1)[OF True nz w] "1.prems"
    have "set_entries m1 a ds (i + 1) n =
        Inr (\<lambda>x. if a + (i + 1) \<le> x \<and> x < a + n then word_of_int (ds ! nat (x - a)) else m1 x)"
      by simp
    moreover have "(\<lambda>x. if a + (i + 1) \<le> x \<and> x < a + n then word_of_int (ds ! nat (x - a)) else m1 x)
        = (\<lambda>x. if a + i \<le> x \<and> x < a + n then word_of_int (ds ! nat (x - a)) else m x)"
      using True by (auto simp: fun_eq_iff m1_def)
    ultimately show ?thesis
      using True nz w by (subst set_entries.simps) simp
  qed
qed

lemma kill_loop_result:
  assumes "PAGE_SIZE \<le> a" "a + PAGE_COUNT \<le> MEM_SIZE" "0 \<le> i"
  shows "kill_loop m a i =
     Inr (\<lambda>x. if \<exists>k. i \<le> k \<and> k < PAGE_COUNT \<and> m (a + k) \<noteq> 0 \<and> x = uint (m (a + k))
               then 0 else m x)"
  using assms
proof (induction m a i rule: kill_loop.induct)
  case (1 m a i)
  show ?case
  proof (cases "i < PAGE_COUNT")
    case False
    then show ?thesis
      by (subst kill_loop.simps) (auto simp: fun_eq_iff)
  next
    case True
    with "1.prems" have d: "rd m (a + i) = Inr (m (a + i))"
      by (simp add: rd_def PAGE_SIZE_def)
    show ?thesis
    proof (cases "m (a + i) = 0")
      case z: True
      from "1.IH"(2)[OF True d] z "1.prems"
      have "kill_loop m a (i + 1) =
          Inr (\<lambda>x. if \<exists>k. i + 1 \<le> k \<and> k < PAGE_COUNT \<and> m (a + k) \<noteq> 0 \<and> x = uint (m (a + k))
                    then 0 else m x)"
        by simp
      moreover have "(\<exists>k. i + 1 \<le> k \<and> k < PAGE_COUNT \<and> m (a + k) \<noteq> 0 \<and> x = uint (m (a + k)))
          \<longleftrightarrow> (\<exists>k. i \<le> k \<and> k < PAGE_COUNT \<and> m (a + k) \<noteq> 0 \<and> x = uint (m (a + k)))" for x
      proof
        assume "\<exists>k. i \<le> k \<and> k < PAGE_COUNT \<and> m (a + k) \<noteq> 0 \<and> x = uint (m (a + k))"
        then obtain k where k: "i \<le> k" "k < PAGE_COUNT" "m (a + k) \<noteq> 0" "x = uint (m (a + k))"
          by blast
        with z have "k \<noteq> i" by auto
        with k show "\<exists>k. i + 1 \<le> k \<and> k < PAGE_COUNT \<and> m (a + k) \<noteq> 0 \<and> x = uint (m (a + k))"
          by (intro exI[of _ k]) simp
      next
        assume "\<exists>k. i + 1 \<le> k \<and> k < PAGE_COUNT \<and> m (a + k) \<noteq> 0 \<and> x = uint (m (a + k))"
        then obtain k where "i + 1 \<le> k" "k < PAGE_COUNT" "m (a + k) \<noteq> 0" "x = uint (m (a + k))"
          by blast
        then show "\<exists>k. i \<le> k \<and> k < PAGE_COUNT \<and> m (a + k) \<noteq> 0 \<and> x = uint (m (a + k))"
          by (intro exI[of _ k]) simp
      qed
      ultimately show ?thesis
        using True d z by (subst kill_loop.simps) simp
    next
      case nz: False
      define m1 where "m1 = m(uint (m (a + i)) := 0)"
      from uint_byte_bounds[of "m (a + i)"]
      have w: "wr m (get_address 0 (uint (m (a + i)))) 0 = Inr m1"
        by (simp add: wr_def m1_def MEM_SIZE_def)
      have same: "m1 (a + k) = m (a + k)" if "0 \<le> k" for k
        using that uint_byte_bounds(2)[of "m (a + i)"] "1.prems"(1)
        by (simp add: m1_def PAGE_SIZE_def)
      from "1.IH"(1)[OF True d nz w] "1.prems"
      have "kill_loop m1 a (i + 1) =
          Inr (\<lambda>x. if \<exists>k. i + 1 \<le> k \<and> k < PAGE_COUNT \<and> m1 (a + k) \<noteq> 0 \<and> x = uint (m1 (a + k))
                    then 0 else m1 x)"
        by simp
      moreover have "(if \<exists>k. i + 1 \<le> k \<and> k < PAGE_COUNT \<and> m1 (a + k) \<noteq> 0 \<and> x = uint (m1 (a + k))
                      then 0 else m1 x)
          = (if \<exists>k. i \<le> k \<and> k < PAGE_COUNT \<and> m (a + k) \<noteq> 0 \<and> x = uint (m (a + k))
             then 0 else m x)" for x
      proof -
        define E where "E \<longleftrightarrow>
          (\<exists>k. i + 1 \<le> k \<and> k < PAGE_COUNT \<and> m (a + k) \<noteq> 0 \<and> x = uint (m (a + k)))"
        have e: "(\<exists>k. i + 1 \<le> k \<and> k < PAGE_COUNT \<and> m1 (a + k) \<noteq> 0 \<and> x = uint (m1 (a + k)))
            \<longleftrightarrow> E"
        proof -
          have "m1 (a + k) = m (a + k)" if "i + 1 \<le> k" for k
            using same[of k] that "1.prems"(3) by simp
          then show ?thesis
            unfolding E_def by (simp cong: conj_cong)
        qed
        have f: "(\<exists>k. i \<le> k \<and> k < PAGE_COUNT \<and> m (a + k) \<noteq> 0 \<and> x = uint (m (a + k)))
            \<longleftrightarrow> x = uint (m (a + i)) \<or> E"
        proof
          assume "\<exists>k. i \<le> k \<and> k < PAGE_COUNT \<and> m (a + k) \<noteq> 0 \<and> x = uint (m (a + k))"
          then obtain k where k: "i \<le> k" "k < PAGE_COUNT" "m (a + k) \<noteq> 0" "x = uint (m (a + k))"
            by blast
          show "x = uint (m (a + i)) \<or> E"
          proof (cases "k = i")
            case True
            with k show ?thesis by simp
          next
            case False
            with k have "i + 1 \<le> k" by simp
            with k show ?thesis unfolding E_def by blast
          qed
        next
          assume "x = uint (m (a + i)) \<or> E"
          then show "\<exists>k. i \<le> k \<and> k < PAGE_COUNT \<and> m (a + k) \<noteq> 0 \<and> x = uint (m (a + k))"
          proof
            assume "x = uint (m (a + i))"
            with True nz show ?thesis by (intro exI[of _ i]) simp
          next
            assume E
            then obtain k where "i + 1 \<le> k" "k < PAGE_COUNT" "m (a + k) \<noteq> 0" "x = uint (m (a + k))"
              unfolding E_def by blast
            then show ?thesis by (intro exI[of _ k]) simp
          qed
        qed
        show ?thesis
          unfolding e f by (auto simp: m1_def)
      qed
      ultimately show ?thesis
        using True d nz w by (subst kill_loop.simps) simp
    qed
  qed
qed

text \<open>
  When page 0 is marked used, the pointer-table entry of the process lies in page 0, and
  the page taken as page table holds 0 in every entry from \<open>page_count\<close> on (as every page
  does in the fresh store), killing the process right after creating it gives back the
  free map from before the create.
\<close>

lemma uint_page_number:
  assumes "0 \<le> p" "p < PAGE_COUNT"
  shows "uint (word_of_int p :: byte) = p"
  using assms by (simp add: uint_word_of_int_eq take_bit_int_eq_self PAGE_COUNT_def)

lemma create_then_kill_clean:
  assumes used0: "m (get_address 0 0) \<noteq> 0"
    and proc: "0 \<le> proc" "PTP_OFFSET + proc < PAGE_SIZE"
    and create: "new_process proc n m = Inr ([], m1)"
    and clean: "\<forall>i. n \<le> i \<and> i < PAGE_COUNT \<longrightarrow> m (get_address (hd (free_pages m)) i) = 0"
  shows "\<exists>m2. kill_process proc m1 = Inr ([], m2) \<and> free_map_snapshot m2 = free_map_snapshot m"
proof -
  from create obtain pt fs where fp: "free_pages m = pt # fs"
    by (cases "free_pages m") (auto simp: new_process_first_fit)
  define ds where "ds = take (nat n) fs"
  define ma where "ma = mark_used (pt # ds) m"
  define a where "a = get_address pt 0"
  from create fp have n: "0 \<le> n" "nat n \<le> length fs"
    by (auto simp: new_process_first_fit split: if_splits)
  with create fp obtain mb where
    w: "wr ma (get_address 0 (PTP_OFFSET + proc)) (word_of_int pt) = Inr mb"
    and s: "set_entries mb a ds 0 n = Inr m1"
    by (auto simp: new_process_first_fit ds_def ma_def a_def split: if_splits sum.splits)
  have len: "length ds = nat n"
    using n by (simp add: ds_def)
  have dsub: "set ds \<subseteq> set fs"
    by (auto simp: ds_def dest: in_set_takeD)
  have free: "0 \<le> p \<and> p < PAGE_COUNT \<and> m p = 0 \<and> p \<noteq> 0" if "p \<in> set (pt # fs)" for p
    using that free_pages_mem[of p m] fp used0 by auto
  have pt: "0 < pt" "pt < PAGE_COUNT"
    using free[of pt] by auto
  have dpt: "pt \<notin> set ds"
    using free_pages_distinct[of m] fp dsub by auto
  have a: "a = pt * 256"
    by (simp add: a_def get_address_zero_offset)
  have ab: "PAGE_SIZE \<le> a" "a + PAGE_COUNT \<le> MEM_SIZE"
    using pt by (simp_all add: a PAGE_SIZE_def PAGE_COUNT_def MEM_SIZE_def)
  have nb: "n \<le> PAGE_COUNT"
  proof -
    have "length (free_pages m) \<le> length [0..PAGE_COUNT - 1]"
      unfolding free_pages_def by (rule length_filter_le)
    with n fp show ?thesis
      by (simp add: PAGE_COUNT_def)
  qed
  have mb: "mb = ma(PTP_OFFSET + proc := word_of_int pt)"
    using w by (simp add: wr_eq_Inr)
  have "set_entries mb a ds 0 n =
      Inr (\<lambda>x. if a + 0 \<le> x \<and> x < a + n then word_of_int (ds ! nat (x - a)) else mb x)"
  proof (rule set_entries_result[OF len])
    show "\<forall>d\<in>set ds. d \<noteq> - 1"
      using free dsub by fastforce
    show "0 \<le> a" "a + n \<le> MEM_SIZE" "(0::int) \<le> 0"
      using ab nb by (simp_all add: PAGE_SIZE_def)
  qed
  with s have m1: "m1 = (\<lambda>x. if a \<le> x \<and> x < a + n then word_of_int (ds ! nat (x - a)) else mb x)"
    by simp
  have low: "m1 x = (if x = PTP_OFFSET + proc then word_of_int pt
                     else if x \<in> set (pt # ds) then 1 else m x)" if "x < PAGE_SIZE" for x
    using that ab by (simp add: m1 mb ma_def mark_used_apply)
  have entry: "m1 (a + k) = (if k < n then word_of_int (ds ! nat k) else 0)"
    if "0 \<le> k" "k < PAGE_COUNT" for k
  proof (cases "k < n")
    case True
    with that show ?thesis by (simp add: m1)
  next
    case False
    have "a + k \<notin> set (pt # ds)"
      using free[of "a + k"] dsub ab that by (auto simp: PAGE_SIZE_def PAGE_COUNT_def)
    moreover have "m (a + k) = 0"
      using clean[rule_format, of k] False that fp
      by (simp add: a get_address_add PAGE_COUNT_def)
    ultimately show ?thesis
      using False that proc ab by (simp add: m1 mb ma_def mark_used_apply)
  qed
  have g: "get_page_table proc m1 = Inr (word_of_int pt)"
    using proc low[of "PTP_OFFSET + proc"]
    by (simp add: get_page_table_def rd_def PTP_OFFSET_def PAGE_SIZE_def MEM_SIZE_def)
  have upt: "uint (word_of_int pt :: byte) = pt"
    using pt by (simp add: uint_page_number)
  define mk where "mk = (\<lambda>x. if \<exists>k. 0 \<le> k \<and> k < PAGE_COUNT \<and> m1 (a + k) \<noteq> 0 \<and> x = uint (m1 (a + k))
                              then 0 else m1 x)"
  have k: "kill_loop m1 a 0 = Inr mk"
    unfolding mk_def by (rule kill_loop_result[OF ab]) simp
  define m2 where "m2 = mk(pt := 0, PTP_OFFSET + proc := 0)"
  have r: "kill_process proc m1 = Inr ([], m2)"
    using g k upt pt proc
    by (simp add: kill_process_def a_def wr_def m2_def MEM_SIZE_def PAGE_COUNT_def PAGE_SIZE_def
        PTP_OFFSET_def)
  have swept: "(\<exists>k. 0 \<le> k \<and> k < PAGE_COUNT \<and> m1 (a + k) \<noteq> 0 \<and> x = uint (m1 (a + k)))
      \<longleftrightarrow> x \<in> set ds" for x
  proof
    assume "\<exists>k. 0 \<le> k \<and> k < PAGE_COUNT \<and> m1 (a + k) \<noteq> 0 \<and> x = uint (m1 (a + k))"
    then obtain k where k: "0 \<le> k" "k < PAGE_COUNT" "m1 (a + k) \<noteq> 0" "x = uint (m1 (a + k))"
      by blast
    with entry[of k] have kn: "k < n" and e: "m1 (a + k) = word_of_int (ds ! nat k)"
      by (auto split: if_splits)
    from kn k len have in_ds: "ds ! nat k \<in> set ds"
      by simp
    with free[of "ds ! nat k"] dsub have "uint (word_of_int (ds ! nat k) :: byte) = ds ! nat k"
      by (auto simp: uint_page_number)
    with k e in_ds show "x \<in> set ds" by simp
  next
    assume "x \<in> set ds"
    then obtain j where j: "j < length ds" "ds ! j = x"
      by (auto simp: in_set_conv_nth)
    from \<open>x \<in> set ds\<close> free[of x] dsub have x: "0 < x" "x < PAGE_COUNT"
      by auto
    from j len nb have jb: "int j < n" "int j < PAGE_COUNT"
      by simp_all
    with entry[of "int j"] j have e: "m1 (a + int j) = word_of_int x"
      by simp
    show "\<exists>k. 0 \<le> k \<and> k < PAGE_COUNT \<and> m1 (a + k) \<noteq> 0 \<and> x = uint (m1 (a + k))"
    proof (intro exI[of _ "int j"] conjI)
      show "m1 (a + int j) \<noteq> 0"
        unfolding e using x by (rule page_number_byte)
      show "x = uint (m1 (a + int j))"
        unfolding e using x by (simp add: uint_page_number)
    qed (use jb in simp_all)
  qed
  have "(m2 i \<noteq> 0) = (m i \<noteq> 0)" if "i \<in> set [0..63]" for i
  proof -
    from that have i: "0 \<le> i" "i < PAGE_COUNT" "i < PAGE_SIZE" "i \<noteq> PTP_OFFSET + proc"
      using proc by (simp_all add: PAGE_COUNT_def PAGE_SIZE_def PTP_OFFSET_def)
    show ?thesis
    proof (cases "i \<in> set (pt # ds)")
      case True
      with free[of i] dsub have "m i = 0" by auto
      moreover from True have "m2 i = 0"
        by (auto simp: m2_def mk_def swept)
      ultimately show ?thesis by simp
    next
      case False
      with i have "m2 i = m1 i"
        by (simp add: m2_def mk_def swept)
      also from False i have "m1 i = m i"
        by (simp add: low)
      finally show ?thesis by simp
    qed
  qed
  then have "free_map_snapshot m2 = free_map_snapshot m"
    by (simp add: free_map_snapshot_def)
  with r show ?thesis by blast
qed

section \<open>Killing a process that does not exist\<close>

text \<open>
  Claim C1, as amended. \<^verbatim>\<open>kill_process\<close> has no test for a missing process. When the
  pointer-table entry of the process is 0 it prints nothing and takes physical page 0 as
  the page table: for each offset 0 to 63 of page 0 in ascending order, when the byte at
  that offset is nonzero at that moment, the free-map byte of the page it names is
  cleared; then the free-map byte of page 0 and the pointer-table entry are cleared. The
  store that results is exactly \<open>sweep_page_zero\<close> followed by these two writes. So the
  free-map byte of page 0 is 0 afterwards, the page named by the free-map byte of page 0
  (page 1 when that byte is 1) is marked free, and every byte that changes lies in page 0
  and becomes 0.
\<close>

theorem C1_kill_absent:
  assumes "get_page_table proc_num m = Inr 0"
  shows "\<exists>m'. kill_process proc_num m = Inr ([], m')
           \<and> m' = (sweep_page_zero m)(get_address 0 0 := 0, get_address 0 (PTP_OFFSET + proc_num) := 0)
           \<and> m' (get_address 0 0) = 0
           \<and> (m (get_address 0 0) \<noteq> 0 \<longrightarrow> m' (get_address 0 (uint (m (get_address 0 0)))) = 0)
           \<and> (\<forall>a. m' a = m a \<or> (0 \<le> a \<and> a < PAGE_SIZE \<and> m' a = 0))"
proof -
  have k: "kill_loop m 0 0 = Inr (sweep_page_zero m)"
    unfolding sweep_page_zero_def get_address_zero_page
    by (rule kill_loop_fold) (simp_all add: PAGE_COUNT_def MEM_SIZE_def)
  define m' where "m' = (sweep_page_zero m)(0 := 0, PTP_OFFSET + proc_num := 0)"
  from assms have b: "0 \<le> PTP_OFFSET + proc_num" "PTP_OFFSET + proc_num < MEM_SIZE"
    and z: "m (PTP_OFFSET + proc_num) = 0"
    by (simp_all add: get_page_table_def rd_eq_Inr)
  with k assms have r: "kill_process proc_num m = Inr ([], m')"
    by (simp add: kill_process_def wr_def m'_def MEM_SIZE_def)
  have "m' a = m a \<or> (0 \<le> a \<and> a < PAGE_SIZE \<and> m' a = 0)" for a
    using kill_loop_writes[OF k, of a] z
    by (auto simp: m'_def PAGE_SIZE_def)
  moreover have "m' 0 = 0"
    by (simp add: m'_def)
  moreover have "m' (uint (m 0)) = 0" if "m 0 \<noteq> 0"
    using first_entry_freed[OF k that] by (simp add: m'_def)
  ultimately show ?thesis
    using r by (simp add: m'_def)
qed

theorem C1_witness:
  "get_page_table 1 (zero_mem(0 := 1, 1 := 1, 2 := 1, 64 := 1, 256 := 2)) = Inr 0
   \<and> new_process 0 1 initialize_mem = Inr ([], zero_mem(0 := 1, 1 := 1, 2 := 1, 64 := 1, 256 := 2))
   \<and> kill_process 1 (zero_mem(0 := 1, 1 := 1, 2 := 1, 64 := 1, 256 := 2))
       = Inr ([], zero_mem(2 := 1, 64 := 1, 256 := 2))"
proof -
  let ?m = "zero_mem(0 := 1, 1 := 1, 2 := 1, 64 := 1, 256 := 2)"
  have g: "get_page_table 1 ?m = Inr 0"
    by (simp add: get_page_table_def rd_def PTP_OFFSET_def MEM_SIZE_def zero_mem_def)
  have fp: "free_pages initialize_mem = [1..63]"
    by (simp add: free_pages_def initialize_mem_def zero_mem_def PAGE_COUNT_def upto_rec1[of 0])
  have u: "[1..63] = 1 # 2 # [3..63]"
    by (simp add: upto_rec1)
  have np: "new_process 0 1 initialize_mem = Inr ([], ?m)"
    unfolding new_process_first_fit fp u
    by (simp add: mark_used_def wr_def MEM_SIZE_def PTP_OFFSET_def set_entries.simps
        get_address_zero_offset initialize_mem_def)
  have tail: "fold (sweep_step 0) [i..63] n = n" if "\<forall>k. i \<le> k \<and> k \<le> 63 \<longrightarrow> n k = 0" for i n
    using that
  proof (induction "nat (64 - i)" arbitrary: i)
    case 0
    then show ?case by simp
  next
    case (Suc x)
    then have "i \<le> 63" by simp
    then have "[i..63] = i # [i + 1..63]" by (simp add: upto_rec1)
    moreover from Suc.prems \<open>i \<le> 63\<close> have "n i = 0" by simp
    moreover have "fold (sweep_step 0) [i + 1..63] n = n"
      using Suc.hyps(2) Suc.prems by (intro Suc.hyps(1)) auto
    ultimately show ?case by (simp add: sweep_step_def)
  qed
  have u3: "[0..63] = 0 # 1 # 2 # [3..63]"
    by (simp add: upto_rec1)
  have sw: "sweep_page_zero ?m = zero_mem(0 := 1, 2 := 1, 64 := 1, 256 := 2)"
  proof -
    have "fold (sweep_step 0) [3..63] (zero_mem(0 := 1, 1 := 0, 2 := 1, 64 := 1, 256 := 2))
        = zero_mem(0 := 1, 1 := 0, 2 := 1, 64 := 1, 256 := 2)"
      by (rule tail) (simp add: zero_mem_def)
    moreover have "fold (sweep_step 0) [0, 1, 2] ?m = zero_mem(0 := 1, 1 := 0, 2 := 1, 64 := 1, 256 := 2)"
      by (auto simp: sweep_step_def fun_eq_iff zero_mem_def)
    ultimately have "sweep_page_zero ?m = zero_mem(0 := 1, 1 := 0, 2 := 1, 64 := 1, 256 := 2)"
      unfolding sweep_page_zero_def PAGE_COUNT_def get_address_zero_page
      by (simp add: u3)
    then show ?thesis
      by (auto simp: fun_eq_iff zero_mem_def)
  qed
  from C1_kill_absent[OF g] have "kill_process 1 ?m =
      Inr ([], (sweep_page_zero ?m)(get_address 0 0 := 0, get_address 0 (PTP_OFFSET + 1) := 0))"
    by blast
  moreover have "(sweep_page_zero ?m)(get_address 0 0 := 0, get_address 0 (PTP_OFFSET + 1) := 0)
      = zero_mem(2 := 1, 64 := 1, 256 := 2)"
    unfolding sw by (auto simp: fun_eq_iff zero_mem_def PTP_OFFSET_def)
  ultimately show ?thesis
    using g np by simp
qed

text \<open>
  The claim as stated (a not-found report and no change of the store) fails in the fresh
  store: killing process 0 prints nothing, and the free map printed afterwards shows no
  page in use, page 0 included.
\<close>

theorem C1_counterexample:
  "get_page_table 0 initialize_mem = Inr 0
   \<and> ptsim [Pfm, Kp 0, Pfm] =
       Inr [Page_free_map (True # replicate 63 False), Page_free_map (replicate 64 False)]"
  by code_simp

section \<open>Page 0 stays marked used\<close>

text \<open>
  Claim C2, as amended. In every store reached from the fresh one by a sequence of
  \<^verbatim>\<open>np\<close>, \<^verbatim>\<open>kp\<close>, \<^verbatim>\<open>sb\<close>, \<^verbatim>\<open>lb\<close> (and the two printing) commands in which every \<^verbatim>\<open>kp\<close>
  names a process number that is not negative and has a nonzero pointer-table entry, the
  free-map byte of page 0 is nonzero.
\<close>

theorem C2_page_zero_stays_used:
  assumes "kills_live_only cs initialize_mem" and "run cs initialize_mem = Inr (outs, m)"
  shows "m (get_address 0 0) \<noteq> 0"
  using run_page_zero[OF _ assms] by (simp add: initialize_mem_def)

theorem C2_witness:
  "kills_live_only [Np 2 3, Sb 2 0 42, Lb 2 0, Kp 2, Np 1 1, Pfm] initialize_mem
   \<and> \<not> isl (run [Np 2 3, Sb 2 0 42, Lb 2 0, Kp 2, Np 1 1, Pfm] initialize_mem)
   \<and> snd (projr (run [Np 2 3, Sb 2 0 42, Lb 2 0, Kp 2, Np 1 1, Pfm] initialize_mem)) (get_address 0 0) \<noteq> 0"
proof -
  let ?cs = "[Np 2 3, Sb 2 0 42, Lb 2 0, Kp 2, Np 1 1, Pfm]"
  have g: "kills_live_only ?cs initialize_mem"
    by code_simp
  have i: "\<not> isl (run ?cs initialize_mem)"
    by code_simp
  then obtain outs m where r: "run ?cs initialize_mem = Inr (outs, m)"
    by (cases "run ?cs initialize_mem") auto
  from C2_page_zero_stays_used[OF g r] g i r show ?thesis
    by simp
qed

text \<open>
  Without the restriction the claim fails: after creating process 0, killing the missing
  process 1 clears the free-map byte of page 0.
\<close>

theorem C2_counterexample:
  "ptsim [Np 0 1, Kp 1, Pfm] = Inr [Page_free_map (False # False # True # replicate 61 False)]"
  by code_simp

section \<open>Page tables and the free map\<close>

text \<open>
  Claim C3 does not hold of the program. \<^verbatim>\<open>new_process\<close> does not clear the page it takes
  as a page table and \<^verbatim>\<open>kill_process\<close> leaves the entries of the table it frees. After
  process 0 with two pages was created and killed, process 1 with one page gets page 1 as
  its table again: entry 1 still names page 3, and the free map shows page 3 free.
\<close>

theorem C3_stale_page_table_entry:
  "ptsim [Np 0 2, Kp 0, Np 1 1, Ppt 1, Pfm] =
     Inr [Page_table 1 [(0, 2), (1, 3)],
          Page_free_map (True # True # True # False # replicate 60 False)]"
  by code_simp

section \<open>Running out of memory\<close>

text \<open>
  Claim C4, as amended. When \<^verbatim>\<open>new_process\<close> reports the data-page OOM, the only bytes
  that changed are free-map bytes that were 0 and are now 1: every page taken earlier in
  the call stays marked used, and no byte outside the free map is written. With \<open>N\<close>
  pages free, a request of more than \<open>N - 1\<close> data pages ends in an OOM report (the
  page-table one when \<open>N = 0\<close>, with the store unchanged; the data-page one otherwise, with
  every free page marked used), and for a process number that is not negative it leaves
  the pointer-table entry of the process as it was.
\<close>

theorem C4_out_of_memory:
  "(new_process proc n m = Inr ([OOM_data_page q], m') \<longrightarrow>
      (\<forall>a. m' a = (if 0 \<le> a \<and> a < PAGE_COUNT \<and> m a = 0 then 1 else m a)))
   \<and> (int (length (free_pages m)) - 1 < n \<longrightarrow>
      (\<exists>out m''. new_process proc n m = Inr (out, m'')
         \<and> (out = [OOM_page_table proc] \<or> out = [OOM_data_page proc])
         \<and> (free_pages m = [] \<longrightarrow> out = [OOM_page_table proc] \<and> m'' = m)
         \<and> (free_pages m \<noteq> [] \<longrightarrow> out = [OOM_data_page proc] \<and> m'' = mark_used (free_pages m) m)
         \<and> (\<forall>a. a < 0 \<or> PAGE_COUNT \<le> a \<longrightarrow> m'' a = m a)
         \<and> (0 \<le> proc \<longrightarrow> m'' (get_address 0 (PTP_OFFSET + proc)) = m (get_address 0 (PTP_OFFSET + proc)))))"
proof (intro conjI impI)
  assume r: "new_process proc n m = Inr ([OOM_data_page q], m')"
  then obtain pt fs where fp: "free_pages m = pt # fs"
    by (cases "free_pages m") (auto simp: new_process_first_fit)
  with r have "m' = mark_used (free_pages m) m"
    by (auto simp: new_process_first_fit split: if_splits sum.splits)
  then show "\<forall>a. m' a = (if 0 \<le> a \<and> a < PAGE_COUNT \<and> m a = 0 then 1 else m a)"
    by (simp add: mark_used_apply free_pages_mem)
next
  assume n: "int (length (free_pages m)) - 1 < n"
  have out: "mark_used (free_pages m) m a = m a" if "a < 0 \<or> PAGE_COUNT \<le> a" for a
    using that by (auto simp: mark_used_apply free_pages_mem)
  have dir: "mark_used (free_pages m) m (get_address 0 (PTP_OFFSET + proc)) = m (get_address 0 (PTP_OFFSET + proc))"
    if "0 \<le> proc"
    using that by (intro out) (simp add: PTP_OFFSET_def PAGE_COUNT_def)
  show "\<exists>out m''. new_process proc n m = Inr (out, m'')
         \<and> (out = [OOM_page_table proc] \<or> out = [OOM_data_page proc])
         \<and> (free_pages m = [] \<longrightarrow> out = [OOM_page_table proc] \<and> m'' = m)
         \<and> (free_pages m \<noteq> [] \<longrightarrow> out = [OOM_data_page proc] \<and> m'' = mark_used (free_pages m) m)
         \<and> (\<forall>a. a < 0 \<or> PAGE_COUNT \<le> a \<longrightarrow> m'' a = m a)
         \<and> (0 \<le> proc \<longrightarrow> m'' (get_address 0 (PTP_OFFSET + proc)) = m (get_address 0 (PTP_OFFSET + proc)))"
  proof (cases "free_pages m")
    case Nil
    then show ?thesis by (simp add: new_process_first_fit)
  next
    case (Cons pt fs)
    with n have "\<not> n < 0" "length fs < nat n" by auto
    with Cons have "new_process proc n m = Inr ([OOM_data_page proc], mark_used (free_pages m) m)"
      by (simp add: new_process_first_fit)
    with dir out Cons show ?thesis by simp
  qed
qed

theorem C4_witness:
  "new_process 7 2 (\<lambda>a. if a = 1 \<or> a = 2 then 0 else 1) = Inr ([OOM_data_page 7], \<lambda>a. 1)
   \<and> int (length (free_pages (\<lambda>a. if a = 1 \<or> a = 2 then 0 else 1))) - 1 < 2
   \<and> (\<forall>a. (1::byte) = (if 0 \<le> a \<and> a < PAGE_COUNT \<and> (if a = 1 \<or> a = 2 then 0 else (1::byte)) = 0
                       then 1 else (if a = 1 \<or> a = 2 then 0 else 1)))
   \<and> (\<exists>out m''. new_process 7 2 (\<lambda>a. if a = 1 \<or> a = 2 then 0 else 1) = Inr (out, m'')
         \<and> out = [OOM_data_page 7]
         \<and> m'' (get_address 0 (PTP_OFFSET + 7)) = 1)"
proof -
  let ?m = "\<lambda>a::int. if a = 1 \<or> a = 2 then 0 else (1::byte)"
  have s1: "alloc_scan ?m 0 = (Some 1, ?m(1 := 1))"
    by (simp add: alloc_scan.simps PAGE_COUNT_def)
  have s2: "alloc_scan (?m(1 := 1)) 0 = (Some 2, ?m(1 := 1, 2 := 1))"
    by (simp add: alloc_scan.simps PAGE_COUNT_def)
  have full: "?m(1 := 1, 2 := 1) = (\<lambda>a. 1)"
    by (rule ext) simp
  have s3: "alloc_scan (\<lambda>a. 1::byte) 0 = (None, \<lambda>a. 1)"
    by (simp add: alloc_scan_filter)
  have run: "new_process 7 2 ?m = Inr ([OOM_data_page 7], \<lambda>a. 1)"
    by (simp add: new_process_def s1 s2 s3 full data_loop.simps)
  have fp: "int (length (free_pages ?m)) - 1 < 2"
    by (simp add: free_pages_def PAGE_COUNT_def upto_rec1)
  note c4 = C4_out_of_memory[of 7 2 ?m 7 "\<lambda>a. 1"]
  from c4 run have a: "\<forall>a. (\<lambda>a. 1::byte) a = (if 0 \<le> a \<and> a < PAGE_COUNT \<and> ?m a = 0 then 1 else ?m a)"
    by blast
  from c4 fp obtain out m'' where e: "new_process 7 2 ?m = Inr (out, m'')"
    and d: "(0::int) \<le> 7 \<longrightarrow> m'' (get_address 0 (PTP_OFFSET + 7)) = ?m (get_address 0 (PTP_OFFSET + 7))"
    by blast
  from d have "m'' (get_address 0 (PTP_OFFSET + 7)) = 1"
    by (simp add: PTP_OFFSET_def)
  moreover from e run have "out = [OOM_data_page 7]"
    by simp
  ultimately have "\<exists>out m''. new_process 7 2 ?m = Inr (out, m'')
         \<and> out = [OOM_data_page 7] \<and> m'' (get_address 0 (PTP_OFFSET + 7)) = 1"
    using e by blast
  with run fp a show ?thesis
    by simp
qed

text \<open>
  For a negative process number the claim fails: the byte \<^verbatim>\<open>get_page_table\<close> reads for
  process \<open>-63\<close> is the free-map byte of page 1. In the fresh store 63 pages are free; a
  request of 63 data pages for process \<open>-63\<close> ends in the data-page OOM, and that byte has
  gone from 0 to 1.
\<close>

theorem C4_counterexample:
  "get_page_table (- 63) initialize_mem = Inr 0
   \<and> int (length (free_pages initialize_mem)) - 1 < 63
   \<and> new_process (- 63) 63 initialize_mem =
       Inr ([OOM_data_page (- 63)], mark_used [1..63] initialize_mem)
   \<and> get_page_table (- 63) (mark_used [1..63] initialize_mem) = Inr 1"
proof -
  have fp: "free_pages initialize_mem = [1..63]"
    by (simp add: free_pages_def initialize_mem_def zero_mem_def PAGE_COUNT_def upto_rec1[of 0])
  have u: "[1..63] = 1 # [2..63]"
    by (simp add: upto_rec1)
  have l: "length [2..63] = 62"
    by simp
  have np: "new_process (- 63) 63 initialize_mem =
      Inr ([OOM_data_page (- 63)], mark_used [1..63] initialize_mem)"
    unfolding new_process_first_fit fp by (simp add: u)
  have g0: "get_page_table (- 63) initialize_mem = Inr 0"
    by (simp add: get_page_table_def rd_def PTP_OFFSET_def MEM_SIZE_def initialize_mem_def zero_mem_def)
  have g1: "get_page_table (- 63) (mark_used [1..63] initialize_mem) = Inr 1"
    by (simp add: get_page_table_def rd_def PTP_OFFSET_def MEM_SIZE_def mark_used_apply)
  from fp np g0 g1 show ?thesis by simp
qed

section \<open>First fit\<close>

text \<open>
  Claim C5. The scan that \<^verbatim>\<open>new_process\<close> runs for the page table page and for every data
  page returns the lowest index whose free-map byte is 0 and sets exactly that byte to 1;
  when no byte is 0 it returns nothing and leaves the store as it is, and for the page
  table page the OOM line is printed. Taken together, \<^verbatim>\<open>new_process\<close> takes the first
  \<open>page_count + 1\<close> free pages in ascending order: the first as page table, the others as
  data pages in that order.
\<close>

theorem C5_first_fit:
  assumes "alloc_scan m 0 = (r, m')"
  shows "(case r of
            Some i \<Rightarrow> 0 \<le> i \<and> i < PAGE_COUNT \<and> m (get_address 0 i) = 0
                      \<and> (\<forall>j. 0 \<le> j \<and> j < i \<longrightarrow> m (get_address 0 j) \<noteq> 0)
                      \<and> m' = m(get_address 0 i := 1)
          | None \<Rightarrow> (\<forall>j. 0 \<le> j \<and> j < PAGE_COUNT \<longrightarrow> m (get_address 0 j) \<noteq> 0) \<and> m' = m
                      \<and> new_process proc n m = Inr ([OOM_page_table proc], m))
         \<and> new_process proc n m =
             (case free_pages m of
                [] \<Rightarrow> Inr ([OOM_page_table proc], m)
              | pt # fs \<Rightarrow>
                  if n < 0 then Inl (Bad_array_size n)
                  else if length fs < nat n then Inr ([OOM_data_page proc], mark_used (pt # fs) m)
                  else
                    (case wr (mark_used (pt # take (nat n) fs) m) (get_address 0 (PTP_OFFSET + proc))
                            (word_of_int pt) of
                       Inl e \<Rightarrow> Inl e
                     | Inr m3 \<Rightarrow>
                         (case set_entries m3 (get_address pt 0) (take (nat n) fs) 0 n of
                            Inl e \<Rightarrow> Inl e
                          | Inr m4 \<Rightarrow> Inr ([], m4))))"
proof (cases r)
  case None
  with assms alloc_scan_None[of m 0 m'] show ?thesis
    by (simp add: new_process_def new_process_first_fit[symmetric])
next
  case (Some i)
  with assms alloc_scan_Some[of m 0 i m'] show ?thesis
    by (simp add: new_process_first_fit[symmetric])
qed

theorem C5_witness:
  "alloc_scan initialize_mem 0 = (Some 1, initialize_mem(get_address 0 1 := 1))
   \<and> initialize_mem (get_address 0 0) \<noteq> 0
   \<and> alloc_scan (\<lambda>a. 1) 0 = (None, \<lambda>a. 1)
   \<and> new_process 2 3 (\<lambda>a. 1) = Inr ([OOM_page_table 2], \<lambda>a. 1)"
proof -
  have s: "alloc_scan initialize_mem 0 = (Some 1, initialize_mem(get_address 0 1 := 1))"
    by (simp add: alloc_scan.simps initialize_mem_def zero_mem_def PAGE_COUNT_def)
  have f: "alloc_scan (\<lambda>a. 1::byte) 0 = (None, \<lambda>a. 1)"
    by (simp add: alloc_scan_filter)
  from C5_first_fit[OF s, of 2 3] C5_first_fit[OF f, of 2 3] s f show ?thesis
    by simp
qed

section \<open>Translation faults\<close>

text \<open>
  Claim C6. When the page table entry read for the virtual page of \<open>vaddr\<close> is 0,
  \<^verbatim>\<open>store_byte\<close> prints the invalid-address line and leaves the store as it is, and
  \<^verbatim>\<open>load_byte\<close> prints the same line and no value.
\<close>

theorem C6_translation_fault:
  assumes "get_page_table proc_num m = Inr pt_page"
    and "rd m (get_address (uint pt_page) (drop_bit PAGE_SHIFT vaddr)) = Inr 0"
  shows "store_byte proc_num vaddr val m = Inr ([Invalid_virtual_address], m)
         \<and> load_byte proc_num vaddr m = Inr [Invalid_virtual_address]"
  using assms by (simp add: store_byte_def load_byte_def)

theorem C6_witness:
  "get_page_table 2 (zero_mem(0 := 1, 1 := 1, 2 := 1, 3 := 1, 4 := 1, 66 := 1, 256 := 2, 257 := 3, 258 := 4)) = Inr 1
   \<and> rd (zero_mem(0 := 1, 1 := 1, 2 := 1, 3 := 1, 4 := 1, 66 := 1, 256 := 2, 257 := 3, 258 := 4))
        (get_address (uint (1::byte)) (drop_bit PAGE_SHIFT 1280)) = Inr 0
   \<and> store_byte 2 1280 42 (zero_mem(0 := 1, 1 := 1, 2 := 1, 3 := 1, 4 := 1, 66 := 1, 256 := 2, 257 := 3, 258 := 4))
       = Inr ([Invalid_virtual_address],
              zero_mem(0 := 1, 1 := 1, 2 := 1, 3 := 1, 4 := 1, 66 := 1, 256 := 2, 257 := 3, 258 := 4))
   \<and> load_byte 2 1280 (zero_mem(0 := 1, 1 := 1, 2 := 1, 3 := 1, 4 := 1, 66 := 1, 256 := 2, 257 := 3, 258 := 4))
       = Inr [Invalid_virtual_address]"
proof -
  let ?m = "zero_mem(0 := 1, 1 := 1, 2 := 1, 3 := 1, 4 := 1, 66 := 1, 256 := 2, 257 := 3, 258 := 4)"
  have g: "get_page_table 2 ?m = Inr 1"
    by (simp add: get_page_table_def rd_def PTP_OFFSET_def MEM_SIZE_def)
  have e: "rd ?m (get_address (uint (1::byte)) (drop_bit PAGE_SHIFT 1280)) = Inr 0"
    by (simp add: rd_def MEM_SIZE_def PAGE_SHIFT_def get_address_def drop_bit_eq_div push_bit_eq_mult zero_mem_def)
  from C6_translation_fault[OF g e, of 42] g e show ?thesis
    by simp
qed

section \<open>Killing a process after creating it\<close>

text \<open>
  Claim C7 does not hold of the program. In the store reached below, page 3 is the lowest
  free page and still holds the page table of the live process 2, whose entry 1 names
  page 5. Creating process 4 with one page takes page 3 as its table and overwrites entry
  0 only; killing process 4 then frees page 5 as well. The free map printed before the
  create shows page 5 used, the one printed after the kill shows it free. On a page table
  page that is clear from entry \<open>page_count\<close> on, the two maps are equal
  (\<open>create_then_kill_clean\<close>).
\<close>

theorem C7_free_map_not_restored:
  "ptsim [Np 0 2, Kp 0, Np 1 1, Np 2 2, Kp 1, Np 3 1, Pfm, Np 4 1, Kp 4, Pfm] =
     Inr [Page_free_map (True # True # True # False # True # True # replicate 58 False),
          Page_free_map (True # True # True # False # True # False # replicate 58 False)]"
  by code_simp

section \<open>Store, then load\<close>

text \<open>
  Claim C8, as amended. When the page table of the process maps the virtual page of
  \<open>vaddr\<close> to a nonzero physical page below \<open>PAGE_COUNT\<close>, and the byte addressed is
  neither the page table entry used for the translation nor the pointer-table entry of the
  process, \<^verbatim>\<open>store_byte\<close> followed by \<^verbatim>\<open>load_byte\<close> at the same address reports the value
  stored.
\<close>

theorem C8_store_then_load:
  assumes "get_page_table proc_num m = Inr pt_page"
    and "rd m (get_address (uint pt_page) (drop_bit PAGE_SHIFT vaddr)) = Inr phys_page"
    and "phys_page \<noteq> 0"
    and "uint phys_page < PAGE_COUNT"
    and "get_address (uint phys_page) (vaddr AND 255) \<noteq> get_address (uint pt_page) (drop_bit PAGE_SHIFT vaddr)"
    and "get_address (uint phys_page) (vaddr AND 255) \<noteq> get_address 0 (PTP_OFFSET + proc_num)"
  shows "\<exists>m'. store_byte proc_num vaddr val m =
                Inr ([Store_line proc_num vaddr (get_address (uint phys_page) (vaddr AND 255)) val], m')
            \<and> load_byte proc_num vaddr m' =
                Inr [Load_line proc_num vaddr (get_address (uint phys_page) (vaddr AND 255)) val]"
proof -
  let ?pa = "get_address (uint phys_page) (vaddr AND 255)"
  let ?m' = "m(?pa := val)"
  from phys_addr_bounds[OF assms(3), of vaddr] assms(4)
  have b: "0 \<le> ?pa" "?pa < MEM_SIZE"
    by (simp_all add: PAGE_SIZE_def)
  then have w: "wr m ?pa val = Inr ?m'"
    by (simp add: wr_def)
  with assms(1,2,3) have s: "store_byte proc_num vaddr val m = Inr ([Store_line proc_num vaddr ?pa val], ?m')"
    by (simp add: store_byte_def Let_def)
  from assms(1,6) have g: "get_page_table proc_num ?m' = Inr pt_page"
    by (simp add: get_page_table_def rd_def Let_def split: if_splits)
  from assms(2,5) have e: "rd ?m' (get_address (uint pt_page) (drop_bit PAGE_SHIFT vaddr)) = Inr phys_page"
    by (simp add: rd_def split: if_splits)
  from b have v: "rd ?m' ?pa = Inr val"
    by (simp add: rd_def)
  from g e v assms(3) have "load_byte proc_num vaddr ?m' = Inr [Load_line proc_num vaddr ?pa val]"
    by (simp add: load_byte_def Let_def)
  with s show ?thesis by blast
qed

theorem C8_witness:
  "store_byte 2 0 42 (zero_mem(0 := 1, 1 := 1, 2 := 1, 3 := 1, 4 := 1, 66 := 1, 256 := 2, 257 := 3, 258 := 4))
     = Inr ([Store_line 2 0 512 42],
            zero_mem(0 := 1, 1 := 1, 2 := 1, 3 := 1, 4 := 1, 66 := 1, 256 := 2, 257 := 3, 258 := 4, 512 := 42))
   \<and> load_byte 2 0 (zero_mem(0 := 1, 1 := 1, 2 := 1, 3 := 1, 4 := 1, 66 := 1, 256 := 2, 257 := 3, 258 := 4, 512 := 42))
     = Inr [Load_line 2 0 512 42]"
proof -
  let ?m = "zero_mem(0 := 1, 1 := 1, 2 := 1, 3 := 1, 4 := 1, 66 := 1, 256 := 2, 257 := 3, 258 := 4)"
  have g: "get_page_table 2 ?m = Inr 1"
    by (simp add: get_page_table_def rd_def PTP_OFFSET_def MEM_SIZE_def)
  have e: "rd ?m (get_address (uint (1::byte)) (drop_bit PAGE_SHIFT 0)) = Inr 2"
    by (simp add: rd_def MEM_SIZE_def get_address_zero_offset)
  have a: "get_address (uint (2::byte)) (0 AND 255) = 512"
    by (simp add: get_address_zero_offset)
  have s: "store_byte 2 0 42 ?m = Inr ([Store_line 2 0 512 42], ?m(512 := 42))"
    using g e by (simp add: store_byte_def Let_def get_address_zero_offset wr_def MEM_SIZE_def)
  have "\<exists>m'. store_byte 2 0 42 ?m = Inr ([Store_line 2 0 512 42], m')
      \<and> load_byte 2 0 m' = Inr [Load_line 2 0 512 42]"
    using C8_store_then_load[OF g e, of 42]
    by (simp add: a PAGE_COUNT_def PTP_OFFSET_def get_address_zero_offset)
  with s show ?thesis
    by auto
qed

text \<open>
  Without the two conditions on the byte addressed the claim fails. Page 3 was a data page
  of process 0 when 3 was stored at its offset 1; as the page table of process 2 it maps
  virtual page 1 to page 3 itself. Storing 7 at virtual address 257 overwrites that entry,
  and the load that follows goes to page 7 and reports 0.
\<close>

theorem C8_counterexample:
  "ptsim [Np 0 2, Sb 0 257 3, Kp 0, Np 1 1, Np 2 1, Ppt 2, Sb 2 257 7, Lb 2 257] =
     Inr [Store_line 0 257 769 3, Page_table 2 [(0, 4), (1, 3)],
          Store_line 2 257 769 7, Load_line 2 257 1793 0]"
  by code_simp

section \<open>The freshly initialised store\<close>

text \<open>
  Claim C9. After \<^verbatim>\<open>initialize_mem\<close> every byte of the store is 0 except the free-map byte
  of page 0, which is 1; the free map therefore shows page 0 used and the 63 other pages
  free.
\<close>

theorem C9_initialize:
  "initialize_mem = zero_mem(get_address 0 0 := 1)
   \<and> initialize_mem (get_address 0 0) \<noteq> 0
   \<and> (\<forall>a. initialize_mem a = (if a = get_address 0 0 then 1 else 0))
   \<and> free_map_snapshot initialize_mem = True # replicate 63 False"
proof -
  have "free_map_snapshot initialize_mem = True # replicate 63 False"
    by code_simp
  then show ?thesis
    by (simp add: initialize_mem_def zero_mem_def)
qed

section \<open>Byte access for a process that does not exist\<close>

text \<open>
  Claim C10. When the pointer-table entry of the process is 0, \<^verbatim>\<open>store_byte\<close> and
  \<^verbatim>\<open>load_byte\<close> read the page table entry at offset \<open>virtual_page\<close> of page 0, fault only
  when that byte is 0, and otherwise access the physical page it names. In the fresh
  store, a store at virtual address 0 for such a process writes the first byte of
  physical page 1.
\<close>

theorem C10_absent_process_access:
  assumes "get_page_table proc_num m = Inr 0"
  shows "store_byte proc_num vaddr val m =
           (case rd m (get_address 0 (drop_bit PAGE_SHIFT vaddr)) of
              Inl e \<Rightarrow> Inl e
            | Inr phys_page \<Rightarrow>
                if phys_page = 0 then Inr ([Invalid_virtual_address], m)
                else
                  (case wr m (get_address (uint phys_page) (vaddr AND 255)) val of
                     Inl e \<Rightarrow> Inl e
                   | Inr m' \<Rightarrow>
                       Inr ([Store_line proc_num vaddr (get_address (uint phys_page) (vaddr AND 255)) val], m')))
         \<and> load_byte proc_num vaddr m =
           (case rd m (get_address 0 (drop_bit PAGE_SHIFT vaddr)) of
              Inl e \<Rightarrow> Inl e
            | Inr phys_page \<Rightarrow>
                if phys_page = 0 then Inr [Invalid_virtual_address]
                else
                  (case rd m (get_address (uint phys_page) (vaddr AND 255)) of
                     Inl e \<Rightarrow> Inl e
                   | Inr v \<Rightarrow>
                       Inr [Load_line proc_num vaddr (get_address (uint phys_page) (vaddr AND 255)) v]))
         \<and> (m = initialize_mem \<longrightarrow>
              store_byte proc_num 0 val m =
                Inr ([Store_line proc_num 0 (get_address 1 0) val], m(get_address 1 0 := val)))"
proof -
  have "store_byte proc_num 0 val initialize_mem =
      Inr ([Store_line proc_num 0 (get_address 1 0) val], initialize_mem(get_address 1 0 := val))"
    if "get_page_table proc_num initialize_mem = Inr 0"
    using that
    by (simp add: store_byte_def rd_def wr_def MEM_SIZE_def initialize_mem_def get_address_zero_offset)
  moreover from assms have "store_byte proc_num vaddr val m =
           (case rd m (get_address 0 (drop_bit PAGE_SHIFT vaddr)) of
              Inl e \<Rightarrow> Inl e
            | Inr phys_page \<Rightarrow>
                if phys_page = 0 then Inr ([Invalid_virtual_address], m)
                else
                  (case wr m (get_address (uint phys_page) (vaddr AND 255)) val of
                     Inl e \<Rightarrow> Inl e
                   | Inr m' \<Rightarrow>
                       Inr ([Store_line proc_num vaddr (get_address (uint phys_page) (vaddr AND 255)) val], m')))"
    by (simp add: store_byte_def Let_def split: sum.splits)
  moreover from assms have "load_byte proc_num vaddr m =
           (case rd m (get_address 0 (drop_bit PAGE_SHIFT vaddr)) of
              Inl e \<Rightarrow> Inl e
            | Inr phys_page \<Rightarrow>
                if phys_page = 0 then Inr [Invalid_virtual_address]
                else
                  (case rd m (get_address (uint phys_page) (vaddr AND 255)) of
                     Inl e \<Rightarrow> Inl e
                   | Inr v \<Rightarrow>
                       Inr [Load_line proc_num vaddr (get_address (uint phys_page) (vaddr AND 255)) v]))"
    by (simp add: load_byte_def Let_def split: sum.splits)
  ultimately show ?thesis
    using assms by blast
qed

theorem C10_witness:
  "get_page_table 5 initialize_mem = Inr 0
   \<and> store_byte 5 0 9 initialize_mem = Inr ([Store_line 5 0 256 9], initialize_mem(256 := 9))
   \<and> load_byte 5 256 initialize_mem = Inr [Invalid_virtual_address]
   \<and> load_byte 5 0 (initialize_mem(256 := 9)) = Inr [Load_line 5 0 256 9]"
proof -
  have g: "get_page_table 5 initialize_mem = Inr 0"
    by (simp add: get_page_table_def rd_def PTP_OFFSET_def MEM_SIZE_def initialize_mem_def zero_mem_def)
  have g': "get_page_table 5 (initialize_mem(256 := 9)) = Inr 0"
    by (simp add: get_page_table_def rd_def PTP_OFFSET_def MEM_SIZE_def initialize_mem_def zero_mem_def)
  from C10_absent_process_access[OF g, of 0 9] C10_absent_process_access[OF g, of 256 9]
    C10_absent_process_access[OF g', of 0 9] g
  show ?thesis
    by (simp add: rd_def wr_def MEM_SIZE_def PAGE_SHIFT_def initialize_mem_def zero_mem_def
        get_address_zero_offset drop_bit_eq_div)
qed

end
